theory Spec2Isabelle
  imports Main "HOL-Library.Word"
begin

section \<open>Memory\<close>

text \<open>
  The class \<^verbatim>\<open>TinyRPC::StreamBuffer\<close> of \<^verbatim>\<open>src/TinyRPC/streambuffer.h\<close> keeps a
  \<^verbatim>\<open>char *\<close> into memory it either allocated itself or was handed by its caller, and
  three \<^verbatim>\<open>size_t\<close> offsets into it. The memory is modelled as a store of blocks: an
  address names a block (what \<^verbatim>\<open>malloc\<close> returned, or the start of the caller's region),
  and an offset is counted from there. A cell holds a byte or is indeterminate, as the
  contents of freshly allocated memory are. \<^verbatim>\<open>size_t\<close> is the 64-bit unsigned integer
  of the usual targets: \<open>+\<close> and \<open>-\<close> wrap around.
\<close>

type_synonym byte = "8 word"
type_synonym cell = "byte option"
type_synonym size_t = "64 word"
type_synonym addr = nat
type_synonym heap = "addr \<Rightarrow> cell list option"

definition NULL :: addr where
  "NULL = 0"

text \<open>
  The allocator's choice is an argument of every operation that allocates: the address
  \<open>a\<close> it answers with, \<open>NULL\<close> when it has no memory. \<^verbatim>\<open>realloc\<close> keeps the old contents up
  to the smaller of the two sizes; it may answer with the old address (the block grew in
  place) or another one (the old block is released); when it fails the old block stays.
  \<^verbatim>\<open>realloc(NULL, n)\<close> is \<^verbatim>\<open>malloc(n)\<close>. Passing an address that names no block is
  undefined behaviour, the result \<open>None\<close>. An allocator answers with an address that names
  no other live block; the model does not enforce this, and a theorem that depends on it
  says so in its hypotheses.
\<close>

definition malloc :: "nat \<Rightarrow> addr \<Rightarrow> heap \<Rightarrow> addr \<times> heap" where
  "malloc n a h = (if a = NULL then (NULL, h) else (a, h(a \<mapsto> replicate n None)))"

definition free :: "addr \<Rightarrow> heap \<Rightarrow> heap" where
  "free p h = (if p = NULL then h else h(p := None))"

definition realloc :: "addr \<Rightarrow> nat \<Rightarrow> addr \<Rightarrow> heap \<Rightarrow> (addr \<times> heap) option" where
  "realloc p n a h =
     (if p = NULL then Some (malloc n a h)
      else case h p of
        None \<Rightarrow> None
      | Some blk \<Rightarrow>
          if a = NULL then Some (NULL, h)
          else Some (a, (h(p := None))(a \<mapsto> take n blk @ replicate (n - length blk) None)))"

text \<open>
  \<^verbatim>\<open>memcpy\<close> and \<^verbatim>\<open>memmove\<close> read \<open>n\<close> cells at an offset of a block and write them at an
  offset of a block. An access that leaves its block is undefined behaviour, the result
  \<open>None\<close>. The caller's array of \<^verbatim>\<open>write\<close> and \<^verbatim>\<open>write_head\<close> is the list \<open>data\<close>, of which
  the first \<open>n\<close> bytes are read.
\<close>

definition load_bytes :: "heap \<Rightarrow> addr \<Rightarrow> nat \<Rightarrow> nat \<Rightarrow> cell list option" where
  "load_bytes h p off n =
     (case h p of
        None \<Rightarrow> None
      | Some blk \<Rightarrow> if off + n \<le> length blk then Some (take n (drop off blk)) else None)"

definition store_bytes :: "heap \<Rightarrow> addr \<Rightarrow> nat \<Rightarrow> cell list \<Rightarrow> heap option" where
  "store_bytes h p off cs =
     (case h p of
        None \<Rightarrow> None
      | Some blk \<Rightarrow>
          if off + length cs \<le> length blk
          then Some (h(p \<mapsto> take off blk @ cs @ drop (off + length cs) blk))
          else None)"

definition caller_bytes :: "byte list \<Rightarrow> nat \<Rightarrow> cell list option" where
  "caller_bytes data n = (if n \<le> length data then Some (map Some (take n data)) else None)"

section \<open>The class\<close>

text \<open>
  Modelled from the spec: the macro \<^verbatim>\<open>ASSERT\<close> of \<^verbatim>\<open>logging.h\<close>, which is not among the
  sources. The spec has a violated precondition and a failed allocation abort execution
  at once, with a diagnostic. An operation therefore ends in \<open>Inl e\<close> at the first
  assertion that fails, \<open>e\<close> naming the assertion by its message, and the memory it
  returns is the memory at that moment. \<open>UndefinedBehaviour\<close> is not an assertion: it
  marks an access outside a block, where C promises nothing.
\<close>

datatype error =
    WritingConstBuffer  \<comment> \<open>writing into a const buffer is not allowed.\<close>
  | ReallocFailed       \<comment> \<open>realloc failed\<close>
  | ReadingBeyondArray  \<comment> \<open>reading beyond the array\<close>
  | UndefinedBehaviour

type_synonym 'a outcome = "(error + 'a) \<times> heap"

definition seq :: "'a outcome \<Rightarrow> ('a \<Rightarrow> heap \<Rightarrow> 'b outcome) \<Rightarrow> 'b outcome" where
  "seq r f = (case r of (Inl e, h) \<Rightarrow> (Inl e, h) | (Inr x, h) \<Rightarrow> f x h)"

text \<open>
  The data members, under the source's names less the trailing underscore, which Isabelle
  keeps for internal names: \<open>buf\<close> is \<^verbatim>\<open>buf_\<close>, \<open>const_buf\<close> is \<^verbatim>\<open>const_buf_\<close>,
  \<open>pend\<close>, \<open>gpos\<close> and \<open>ppos\<close> are \<^verbatim>\<open>pend_\<close> (end of buffer), \<^verbatim>\<open>gpos_\<close> (start of get)
  and \<^verbatim>\<open>ppos_\<close> (start of put). The spec calls them storage, the ownership flag
  (borrowed when set), \<open>capacity_end\<close>, \<open>read_pos\<close> and \<open>write_pos\<close>.
\<close>

record StreamBuffer =
  buf :: addr
  const_buf :: bool
  pend :: size_t
  gpos :: size_t
  ppos :: size_t

definition SHRINK_WITH_GET :: bool where
  "SHRINK_WITH_GET = False"

definition GROW_SIZE :: size_t where
  "GROW_SIZE = 1024"

definition RESERVED_HEADER_SPACE :: size_t where
  "RESERVED_HEADER_SPACE = 64"

text \<open>The two constructors, \<^verbatim>\<open>set_buf\<close>, the destructor and the two getters.\<close>

definition StreamBuffer_owned :: "addr \<Rightarrow> heap \<Rightarrow> StreamBuffer \<times> heap" where
  "StreamBuffer_owned a h =
     (let (p, h1) = malloc (unat (RESERVED_HEADER_SPACE * 2)) a h
      in (\<lparr>buf = p, const_buf = False, pend = RESERVED_HEADER_SPACE * 2,
           gpos = RESERVED_HEADER_SPACE, ppos = RESERVED_HEADER_SPACE\<rparr>, h1))"

definition StreamBuffer_borrowed :: "addr \<Rightarrow> size_t \<Rightarrow> StreamBuffer" where
  "StreamBuffer_borrowed p sz =
     \<lparr>buf = p, const_buf = True, pend = sz, gpos = 0, ppos = sz\<rparr>"

definition set_buf :: "addr \<Rightarrow> size_t \<Rightarrow> StreamBuffer \<Rightarrow> StreamBuffer" where
  "set_buf p sz s = s\<lparr>const_buf := True, buf := p, ppos := sz, gpos := 0, pend := sz\<rparr>"

definition StreamBuffer_destroy :: "heap \<Rightarrow> StreamBuffer \<Rightarrow> heap" where
  "StreamBuffer_destroy h s = (if \<not> const_buf s then free (buf s) h else h)"

definition get_buf :: "StreamBuffer \<Rightarrow> addr" where
  "get_buf s = buf s"

definition get_size :: "StreamBuffer \<Rightarrow> size_t" where
  "get_size s = ppos s - gpos s"

text \<open>
  \<^verbatim>\<open>swap\<close> works on two objects through references, which may name the same object. The
  objects live in a store; \<^verbatim>\<open>std::swap(x.f, y.g)\<close> reads the field \<open>f\<close> of \<open>x\<close>, assigns
  to it the field \<open>g\<close> of \<open>y\<close>, and assigns the value read to the field \<open>g\<close> of \<open>y\<close>.
\<close>

definition std_swap ::
  "(StreamBuffer \<Rightarrow> 'a) \<Rightarrow> (('a \<Rightarrow> 'a) \<Rightarrow> StreamBuffer \<Rightarrow> StreamBuffer) \<Rightarrow> 'o \<Rightarrow>
   (StreamBuffer \<Rightarrow> 'a) \<Rightarrow> (('a \<Rightarrow> 'a) \<Rightarrow> StreamBuffer \<Rightarrow> StreamBuffer) \<Rightarrow> 'o \<Rightarrow>
   ('o \<Rightarrow> StreamBuffer) \<Rightarrow> ('o \<Rightarrow> StreamBuffer)" where
  "std_swap f f_update x g g_update y st =
     (let tmp = f (st x);
          st1 = st(x := f_update (\<lambda>_. g (st y)) (st x));
          st2 = st1(y := g_update (\<lambda>_. tmp) (st1 y))
      in st2)"

definition swap :: "'o \<Rightarrow> 'o \<Rightarrow> ('o \<Rightarrow> StreamBuffer) \<Rightarrow> ('o \<Rightarrow> StreamBuffer)" where
  "swap this rhs st =
     (let st = std_swap const_buf const_buf_update this const_buf const_buf_update rhs st;
          st = std_swap buf buf_update this buf buf_update rhs st;
          st = std_swap pend pend_update this pend pend_update rhs st;
          st = std_swap gpos gpos_update this ppos ppos_update rhs st;
          st = std_swap ppos ppos_update this ppos ppos_update rhs st
      in st)"

text \<open>
  \<^verbatim>\<open>write(buf, size)\<close>. The argument \<open>ra\<close> is the answer of \<^verbatim>\<open>realloc\<close>, used when the
  buffer grows. The macros \<^verbatim>\<open>LOG\<close> and \<^verbatim>\<open>WARN\<close> print a message and change nothing; they
  are left out here and in \<^verbatim>\<open>write_head\<close>.
\<close>

definition write' ::
  "byte list \<Rightarrow> size_t \<Rightarrow> addr \<Rightarrow> heap \<Rightarrow> StreamBuffer \<Rightarrow> StreamBuffer outcome" where
  "write' data sz ra h s =
     (if const_buf s then (Inl WritingConstBuffer, h)
      else
        let new_size = sz + ppos s in
        seq (if new_size > pend s
             then
               let new_size = max new_size (ppos s + GROW_SIZE) in
               (case realloc (buf s) (unat new_size) ra h of
                  None \<Rightarrow> (Inl UndefinedBehaviour, h)
                | Some (new_buf, h1) \<Rightarrow>
                    if new_buf = NULL then (Inl ReallocFailed, h1)
                    else (Inr (s\<lparr>buf := new_buf, pend := new_size\<rparr>), h1))
             else (Inr s, h))
          (\<lambda>s h.
             case caller_bytes data (unat sz) of
               None \<Rightarrow> (Inl UndefinedBehaviour, h)
             | Some cs \<Rightarrow>
                 (case store_bytes h (buf s) (unat (ppos s)) cs of
                    None \<Rightarrow> (Inl UndefinedBehaviour, h)
                  | Some h1 \<Rightarrow> (Inr (s\<lparr>ppos := ppos s + sz\<rparr>), h1))))"

text \<open>
  \<^verbatim>\<open>read(buf, size)\<close>. The bytes copied into the caller's array are returned with the
  object. The argument \<open>ra\<close> is the answer of \<^verbatim>\<open>realloc\<close> in the branch that
  \<open>SHRINK_WITH_GET\<close> guards.
\<close>

definition read ::
  "size_t \<Rightarrow> addr \<Rightarrow> heap \<Rightarrow> StreamBuffer \<Rightarrow> (cell list \<times> StreamBuffer) outcome" where
  "read sz ra h s =
     (if \<not> (gpos s + sz \<le> ppos s) then (Inl ReadingBeyondArray, h)
      else
        case load_bytes h (buf s) (unat (gpos s)) (unat sz) of
          None \<Rightarrow> (Inl UndefinedBehaviour, h)
        | Some out \<Rightarrow>
            let s = s\<lparr>gpos := gpos s + sz\<rparr> in
            if gpos s > GROW_SIZE \<and> SHRINK_WITH_GET \<and> \<not> const_buf s
            then
              (case load_bytes h (buf s) (unat (gpos s)) (unat (ppos s - gpos s)) of
                 None \<Rightarrow> (Inl UndefinedBehaviour, h)
               | Some cs \<Rightarrow>
                   (case store_bytes h (buf s) 0 cs of
                      None \<Rightarrow> (Inl UndefinedBehaviour, h)
                    | Some h1 \<Rightarrow>
                        (case realloc (buf s) (unat (pend s - gpos s)) ra h1 of
                           None \<Rightarrow> (Inl UndefinedBehaviour, h1)
                         | Some (new_buf, h2) \<Rightarrow>
                             if new_buf = NULL then (Inl ReallocFailed, h2)
                             else (Inr (out, s\<lparr>buf := new_buf,
                                                pend := pend s - gpos s,
                                                ppos := ppos s - gpos s,
                                                gpos := 0\<rparr>), h2))))
            else (Inr (out, s), h))"

text \<open>
  \<^verbatim>\<open>write_head(buf, size)\<close>. The argument \<open>ma\<close> is the answer of \<^verbatim>\<open>malloc\<close>, used when
  the margin before \<open>gpos\<close> is too small.
\<close>

definition write_head ::
  "byte list \<Rightarrow> size_t \<Rightarrow> addr \<Rightarrow> heap \<Rightarrow> StreamBuffer \<Rightarrow> StreamBuffer outcome" where
  "write_head data sz ma h s =
     (if const_buf s then (Inl WritingConstBuffer, h)
      else
        seq (if gpos s < sz
             then
               let new_size = max (sz + ppos s) (ppos s + RESERVED_HEADER_SPACE);
                   (new_buf, h1) = malloc (unat new_size) ma h
               in
                 if new_buf = NULL then (Inl ReallocFailed, h1)
                 else
                   let new_gpos = new_size - (ppos s - gpos s) in
                   (case load_bytes h1 (buf s) (unat (gpos s)) (unat (ppos s - gpos s)) of
                      None \<Rightarrow> (Inl UndefinedBehaviour, h1)
                    | Some cs \<Rightarrow>
                        (case store_bytes h1 new_buf (unat new_gpos) cs of
                           None \<Rightarrow> (Inl UndefinedBehaviour, h1)
                         | Some h2 \<Rightarrow>
                             (Inr (s\<lparr>buf := new_buf, gpos := new_gpos,
                                     ppos := new_size, pend := new_size\<rparr>),
                              free (buf s) h2)))
             else (Inr s, h))
          (\<lambda>s h.
             let s = s\<lparr>gpos := gpos s - sz\<rparr> in
             case caller_bytes data (unat sz) of
               None \<Rightarrow> (Inl UndefinedBehaviour, h)
             | Some cs \<Rightarrow>
                 (case store_bytes h (buf s) (unat (gpos s)) cs of
                    None \<Rightarrow> (Inl UndefinedBehaviour, h)
                  | Some h1 \<Rightarrow> (Inr s, h1))))"

section \<open>What the properties speak of\<close>

text \<open>
  The invariant of the spec on the three offsets; the region the object points to, which
  has to be there and to have \<open>pend\<close> cells; and the logical content, the cells from the
  read position to the write position.
\<close>

definition invariant :: "StreamBuffer \<Rightarrow> bool" where
  "invariant s \<longleftrightarrow> gpos s \<le> ppos s \<and> ppos s \<le> pend s"

definition region :: "heap \<Rightarrow> StreamBuffer \<Rightarrow> cell list" where
  "region h s = (case h (buf s) of None \<Rightarrow> [] | Some blk \<Rightarrow> blk)"

definition well_formed :: "heap \<Rightarrow> StreamBuffer \<Rightarrow> bool" where
  "well_formed h s \<longleftrightarrow>
     invariant s \<and> buf s \<noteq> NULL \<and> h (buf s) \<noteq> None \<and> length (region h s) = unat (pend s)"

definition content :: "heap \<Rightarrow> StreamBuffer \<Rightarrow> cell list" where
  "content h s = take (unat (ppos s) - unat (gpos s)) (drop (unat (gpos s)) (region h s))"

section \<open>Sequences of calls\<close>

text \<open>
  A client that calls \<^verbatim>\<open>write\<close> several times, each call with its array, its size and the
  answer \<^verbatim>\<open>realloc\<close> would give it, and then \<^verbatim>\<open>read\<close> several times; the first
  assertion that fails ends the run. \<open>written\<close> is what the calls of \<^verbatim>\<open>write\<close> were
  asked to append, \<open>sizes\<close> the total the calls of \<^verbatim>\<open>read\<close> ask for, and \<open>round_trip\<close>
  returns what the reads delivered, in order.
\<close>

fun writes :: "(byte list \<times> size_t \<times> addr) list \<Rightarrow> heap \<Rightarrow> StreamBuffer \<Rightarrow> StreamBuffer outcome" where
  "writes [] h s = (Inr s, h)"
| "writes ((data, sz, ra) # ws) h s =
     (case write' data sz ra h s of
        (Inl e, h1) \<Rightarrow> (Inl e, h1)
      | (Inr s1, h1) \<Rightarrow> writes ws h1 s1)"

fun reads :: "(size_t \<times> addr) list \<Rightarrow> heap \<Rightarrow> StreamBuffer \<Rightarrow> (cell list \<times> StreamBuffer) outcome" where
  "reads [] h s = (Inr ([], s), h)"
| "reads ((sz, ra) # rs) h s =
     (case read sz ra h s of
        (Inl e, h1) \<Rightarrow> (Inl e, h1)
      | (Inr (out, s1), h1) \<Rightarrow>
          (case reads rs h1 s1 of
             (Inl e, h2) \<Rightarrow> (Inl e, h2)
           | (Inr (outs, s2), h2) \<Rightarrow> (Inr (out @ outs, s2), h2)))"

fun written :: "(byte list \<times> size_t \<times> addr) list \<Rightarrow> byte list" where
  "written [] = []"
| "written ((data, sz, ra) # ws) = take (unat sz) data @ written ws"

fun valid_writes :: "(byte list \<times> size_t \<times> addr) list \<Rightarrow> bool" where
  "valid_writes [] = True"
| "valid_writes ((data, sz, ra) # ws) = (unat sz \<le> length data \<and> ra \<noteq> NULL \<and> valid_writes ws)"

fun sizes :: "(size_t \<times> addr) list \<Rightarrow> nat" where
  "sizes [] = 0"
| "sizes ((sz, ra) # rs) = unat sz + sizes rs"

definition round_trip ::
  "(byte list \<times> size_t \<times> addr) list \<Rightarrow> (size_t \<times> addr) list \<Rightarrow> heap \<Rightarrow> StreamBuffer \<Rightarrow>
   cell list outcome" where
  "round_trip ws rs h s =
     seq (writes ws h s) (\<lambda>s h. seq (reads rs h s) (\<lambda>(out, s) h. (Inr out, h)))"

text \<open>
  A client that writes a body and then stamps a header before it, and the logical content
  an operation leaves behind when it succeeds.
\<close>

definition body_then_head ::
  "byte list \<Rightarrow> size_t \<Rightarrow> addr \<Rightarrow> byte list \<Rightarrow> size_t \<Rightarrow> addr \<Rightarrow> heap \<Rightarrow> StreamBuffer \<Rightarrow>
   StreamBuffer outcome" where
  "body_then_head body nb ra header nh ma h s =
     seq (write' body nb ra h s) (\<lambda>s h. write_head header nh ma h s)"

definition content_after :: "StreamBuffer outcome \<Rightarrow> error + cell list" where
  "content_after r = (case r of (Inl e, h) \<Rightarrow> Inl e | (Inr s, h) \<Rightarrow> Inr (content h s))"

section \<open>Concrete objects\<close>

text \<open>
  A caller's region of ten bytes at address 2; an owned object freshly constructed at
  address 1 beside it; a borrowed object over the caller's region; and an owned object
  that holds one unread byte, as the constructor followed by a \<^verbatim>\<open>write\<close> of the byte 1
  leaves it.
\<close>

definition caller_heap :: heap where
  "caller_heap = Map.empty(2 \<mapsto> replicate 10 (Some 7))"

definition fresh :: StreamBuffer where
  "fresh = fst (StreamBuffer_owned 1 caller_heap)"

definition fresh_heap :: heap where
  "fresh_heap = snd (StreamBuffer_owned 1 caller_heap)"

definition borrowed :: StreamBuffer where
  "borrowed = StreamBuffer_borrowed 2 10"

definition one_byte :: StreamBuffer where
  "one_byte = \<lparr>buf = 1, const_buf = False, pend = 128, gpos = 64, ppos = 65\<rparr>"

definition one_byte_heap :: heap where
  "one_byte_heap = caller_heap(1 \<mapsto> replicate 64 None @ [Some 1] @ replicate 63 None)"

section \<open>How the operations act on a well-formed object\<close>

text \<open>
  With \<open>SHRINK_WITH_GET\<close> off, the branch of \<^verbatim>\<open>read\<close> that compacts the buffer is never
  taken.
\<close>

lemma read_simp:
  "read sz ra h s =
     (if \<not> (gpos s + sz \<le> ppos s) then (Inl ReadingBeyondArray, h)
      else case load_bytes h (buf s) (unat (gpos s)) (unat sz) of
          None \<Rightarrow> (Inl UndefinedBehaviour, h)
        | Some out \<Rightarrow> (Inr (out, s\<lparr>gpos := gpos s + sz\<rparr>), h))"
  unfolding read_def SHRINK_WITH_GET_def Let_def by (simp cong: option.case_cong)

text \<open>
  The assertion of \<^verbatim>\<open>read\<close> fails exactly when the sum the code computes, in \<^verbatim>\<open>size_t\<close>,
  exceeds \<open>ppos\<close>.
\<close>

lemma read_assertion_iff:
  "fst (read sz ra h s) = Inl ReadingBeyondArray \<longleftrightarrow> ppos s < gpos s + sz"
  by (auto simp: read_simp split: option.splits)

lemma take_drop_put:
  "G \<le> P \<Longrightarrow> P \<le> length b \<Longrightarrow>
   take (P + length cs - G) (drop G (take P b @ cs @ rest)) = take (P - G) (drop G b) @ cs"
  by (simp add: drop_take)

lemma take_drop_put_head:
  "length cs \<le> G \<Longrightarrow> G \<le> P \<Longrightarrow> P \<le> length b \<Longrightarrow>
   take (P - (G - length cs)) (drop (G - length cs) (take (G - length cs) b @ cs @ drop G b))
     = cs @ take (P - G) (drop G b)"
  by simp

lemma well_formedD:
  assumes "well_formed h s"
  obtains blk where "h (buf s) = Some blk" "length blk = unat (pend s)" "buf s \<noteq> NULL"
    "unat (gpos s) \<le> unat (ppos s)" "unat (ppos s) \<le> unat (pend s)" "region h s = blk"
  using assms by (auto simp: well_formed_def invariant_def region_def word_le_nat_alt)

lemma well_formedI:
  "h (buf s) = Some blk \<Longrightarrow> length blk = unat (pend s) \<Longrightarrow> buf s \<noteq> NULL \<Longrightarrow>
   unat (gpos s) \<le> unat (ppos s) \<Longrightarrow> unat (ppos s) \<le> unat (pend s) \<Longrightarrow> well_formed h s"
  by (simp add: well_formed_def invariant_def region_def word_le_nat_alt)

lemma grows_fits:
  assumes "unat (ppos s) \<le> unat (pend s)" and "pend s < sz + ppos s"
  shows "unat (ppos s) + unat sz < 2 ^ 64"
proof -
  from assms(1) have "ppos s \<le> pend s" by (simp only: word_le_nat_alt)
  also from assms(2) have "pend s \<le> ppos s + sz"
    by (simp only: add.commute [of sz "ppos s"] order.strict_implies_order)
  finally have "unat (ppos s) + unat sz < 2 ^ LENGTH(64)" by (simp only: no_olen_add_nat)
  then show ?thesis by simp
qed

lemma grows_iff:
  assumes "well_formed h s"
  shows "pend s < sz + ppos s \<longleftrightarrow>
     unat (pend s) < unat (ppos s) + unat sz \<and> unat (ppos s) + unat sz < 2 ^ 64"
proof
  assume full: "pend s < sz + ppos s"
  from assms have "unat (ppos s) \<le> unat (pend s)" by (rule well_formedD)
  from this full have fit: "unat (ppos s) + unat sz < 2 ^ 64" by (rule grows_fits)
  then have "unat (sz + ppos s) = unat (ppos s) + unat sz"
    using unat_add_lem [of sz "ppos s"] by simp
  with full fit show "unat (pend s) < unat (ppos s) + unat sz \<and> unat (ppos s) + unat sz < 2 ^ 64"
    by (simp add: word_less_nat_alt)
next
  assume a: "unat (pend s) < unat (ppos s) + unat sz \<and> unat (ppos s) + unat sz < 2 ^ 64"
  then have "unat (sz + ppos s) = unat (ppos s) + unat sz"
    using unat_add_lem [of sz "ppos s"] by simp
  with a show "pend s < sz + ppos s" by (simp add: word_less_nat_alt)
qed

lemma write'_room:
  assumes wf: "well_formed h s" and own: "\<not> const_buf s"
    and data: "unat sz \<le> length data"
    and fit: "unat (ppos s) + unat sz < 2 ^ 64"
    and room: "\<not> pend s < sz + ppos s"
  shows "\<exists>h'. write' data sz ra h s = (Inr (s\<lparr>ppos := ppos s + sz\<rparr>), h') \<and>
      well_formed h' (s\<lparr>ppos := ppos s + sz\<rparr>) \<and>
      content h' (s\<lparr>ppos := ppos s + sz\<rparr>) = content h s @ map Some (take (unat sz) data)"
proof -
  from wf obtain blk where blk: "h (buf s) = Some blk" "length blk = unat (pend s)"
    and nn: "buf s \<noteq> NULL"
    and le: "unat (gpos s) \<le> unat (ppos s)" "unat (ppos s) \<le> unat (pend s)"
    and reg: "region h s = blk"
    by (rule well_formedD)
  define cs where "cs = map Some (take (unat sz) data)"
  have lcs: "length cs = unat sz" using data by (simp add: cs_def)
  have cb: "caller_bytes data (unat sz) = Some cs" using data by (simp add: caller_bytes_def cs_def)
  have ns: "unat (sz + ppos s) = unat sz + unat (ppos s)"
    using fit unat_add_lem [of sz "ppos s"] by simp
  have ns': "unat (ppos s + sz) = unat (ppos s) + unat sz"
    using ns by (simp add: add.commute)
  have fits: "unat (ppos s) + unat sz \<le> length blk"
    using room ns blk by (simp add: word_less_nat_alt)
  define h' where "h' = h(buf s \<mapsto> take (unat (ppos s)) blk @ cs @ drop (unat (ppos s) + length cs) blk)"
  have st: "store_bytes h (buf s) (unat (ppos s)) cs = Some h'"
    using blk fits lcs by (simp add: store_bytes_def h'_def)
  have res: "write' data sz ra h s = (Inr (s\<lparr>ppos := ppos s + sz\<rparr>), h')"
    using own room cb st by (simp add: write'_def seq_def Let_def)
  have wf': "well_formed h' (s\<lparr>ppos := ppos s + sz\<rparr>)"
    by (rule well_formedI [where blk = "take (unat (ppos s)) blk @ cs @ drop (unat (ppos s) + length cs) blk"])
       (use blk fits lcs nn le ns' in \<open>simp_all add: h'_def\<close>)
  have "content h' (s\<lparr>ppos := ppos s + sz\<rparr>) = content h s @ cs"
    using take_drop_put [of "unat (gpos s)" "unat (ppos s)" blk cs] le blk lcs ns' reg
    by (simp add: content_def region_def h'_def)
  with res wf' show ?thesis by (simp add: cs_def)
qed

lemma write'_grow:
  assumes wf: "well_formed h s" and own: "\<not> const_buf s"
    and data: "unat sz \<le> length data"
    and full: "pend s < sz + ppos s"
    and ra: "ra \<noteq> NULL"
  defines "N \<equiv> max (sz + ppos s) (ppos s + GROW_SIZE)"
  defines "s' \<equiv> s\<lparr>buf := ra, pend := N, ppos := ppos s + sz\<rparr>"
  shows "\<exists>h'. write' data sz ra h s = (Inr s', h') \<and> well_formed h' s' \<and>
      take (unat (ppos s)) (region h' s') = take (unat (ppos s)) (region h s) \<and>
      content h' s' = content h s @ map Some (take (unat sz) data)"
proof -
  from wf obtain blk where blk: "h (buf s) = Some blk" "length blk = unat (pend s)"
    and nn: "buf s \<noteq> NULL"
    and le: "unat (gpos s) \<le> unat (ppos s)" "unat (ppos s) \<le> unat (pend s)"
    and reg: "region h s = blk"
    by (rule well_formedD)
  have fit: "unat (ppos s) + unat sz < 2 ^ 64" using le(2) full by (rule grows_fits)
  define cs where "cs = map Some (take (unat sz) data)"
  have lcs: "length cs = unat sz" using data by (simp add: cs_def)
  have cb: "caller_bytes data (unat sz) = Some cs" using data by (simp add: caller_bytes_def cs_def)
  have ns: "unat (sz + ppos s) = unat sz + unat (ppos s)"
    using fit unat_add_lem [of sz "ppos s"] by simp
  have ns': "unat (ppos s + sz) = unat (ppos s) + unat sz"
    using ns by (simp add: add.commute)
  have "sz + ppos s \<le> N" by (simp add: N_def)
  then have Nge: "unat sz + unat (ppos s) \<le> unat N"
    using ns by (simp add: word_le_nat_alt)
  have grow: "length blk \<le> unat N"
    using full Nge ns blk by (simp add: word_less_nat_alt)
  define blk1 where "blk1 = blk @ replicate (unat N - length blk) None"
  define h1 where "h1 = (h(buf s := None))(ra \<mapsto> blk1)"
  have re: "realloc (buf s) (unat N) ra h = Some (ra, h1)"
    using blk nn ra grow by (simp add: realloc_def h1_def blk1_def)
  have l1: "length blk1 = unat N" using grow by (simp add: blk1_def)
  define blk2 where "blk2 = take (unat (ppos s)) blk1 @ cs @ drop (unat (ppos s) + length cs) blk1"
  define h' where "h' = h1(ra \<mapsto> blk2)"
  have st: "store_bytes h1 ra (unat (ppos s)) cs = Some h'"
    using l1 Nge lcs by (simp add: store_bytes_def h'_def h1_def blk2_def)
  have res: "write' data sz ra h s = (Inr s', h')"
    using own full cb st re ra by (simp add: write'_def seq_def Let_def N_def [symmetric] s'_def)
  have wf': "well_formed h' s'"
    by (rule well_formedI [where blk = blk2])
       (use l1 Nge lcs ra le ns' in \<open>simp_all add: h'_def s'_def blk2_def\<close>)
  have tk: "take (unat (ppos s)) blk1 = take (unat (ppos s)) blk"
    using le blk by (simp add: blk1_def)
  have keep: "take (unat (ppos s)) (region h' s') = take (unat (ppos s)) (region h s)"
    using reg tk le blk by (simp add: region_def h'_def s'_def blk2_def)
  have "content h' s' = content h s @ cs"
    using take_drop_put [of "unat (gpos s)" "unat (ppos s)" blk cs] le blk lcs ns' reg
    by (simp add: content_def region_def h'_def s'_def tk blk2_def)
  with res wf' keep show ?thesis by (simp add: cs_def)
qed

lemma write'_ok:
  assumes wf: "well_formed h s" and own: "\<not> const_buf s"
    and data: "unat sz \<le> length data"
    and fit: "unat (ppos s) + unat sz < 2 ^ 64"
    and ra: "ra \<noteq> NULL"
  shows "\<exists>s' h'. write' data sz ra h s = (Inr s', h') \<and> well_formed h' s' \<and> \<not> const_buf s' \<and>
      gpos s' = gpos s \<and> ppos s' = ppos s + sz \<and> (buf s' = buf s \<or> buf s' = ra) \<and>
      content h' s' = content h s @ map Some (take (unat sz) data)"
proof (cases "pend s < sz + ppos s")
  case True
  from write'_grow [OF wf own data True ra] obtain h' where
    "write' data sz ra h s =
       (Inr (s\<lparr>buf := ra, pend := max (sz + ppos s) (ppos s + GROW_SIZE), ppos := ppos s + sz\<rparr>), h')"
    "well_formed h' (s\<lparr>buf := ra, pend := max (sz + ppos s) (ppos s + GROW_SIZE), ppos := ppos s + sz\<rparr>)"
    "content h' (s\<lparr>buf := ra, pend := max (sz + ppos s) (ppos s + GROW_SIZE), ppos := ppos s + sz\<rparr>)
       = content h s @ map Some (take (unat sz) data)"
    by blast
  with own show ?thesis by simp
next
  case False
  from write'_room [OF wf own data fit False, where ra = ra] obtain h' where
    "write' data sz ra h s = (Inr (s\<lparr>ppos := ppos s + sz\<rparr>), h')"
    "well_formed h' (s\<lparr>ppos := ppos s + sz\<rparr>)"
    "content h' (s\<lparr>ppos := ppos s + sz\<rparr>) = content h s @ map Some (take (unat sz) data)"
    by blast
  with own show ?thesis by simp
qed

lemma head_copy:
  assumes wf: "well_formed h s" and own: "\<not> const_buf s"
    and data: "unat sz \<le> length data"
    and room: "sz \<le> gpos s"
  shows "\<exists>s' h'.
      (let s = s\<lparr>gpos := gpos s - sz\<rparr> in
         case caller_bytes data (unat sz) of
           None \<Rightarrow> (Inl UndefinedBehaviour, h)
         | Some cs \<Rightarrow>
             (case store_bytes h (buf s) (unat (gpos s)) cs of
                None \<Rightarrow> (Inl UndefinedBehaviour, h)
              | Some h1 \<Rightarrow> (Inr s, h1))) = (Inr s', h') \<and>
      s' = s\<lparr>gpos := gpos s - sz\<rparr> \<and> well_formed h' s' \<and>
      content h' s' = map Some (take (unat sz) data) @ content h s"
proof -
  from wf obtain blk where blk: "h (buf s) = Some blk" "length blk = unat (pend s)"
    and nn: "buf s \<noteq> NULL"
    and le: "unat (gpos s) \<le> unat (ppos s)" "unat (ppos s) \<le> unat (pend s)"
    and reg: "region h s = blk"
    by (rule well_formedD)
  define cs where "cs = map Some (take (unat sz) data)"
  have lcs: "length cs = unat sz" using data by (simp add: cs_def)
  have cb: "caller_bytes data (unat sz) = Some cs" using data by (simp add: caller_bytes_def cs_def)
  have g: "unat (gpos s - sz) = unat (gpos s) - unat sz" using room by (rule unat_sub)
  have nle: "unat sz \<le> unat (gpos s)" using room by (simp add: word_le_nat_alt)
  define blk' where "blk' = take (unat (gpos s) - length cs) blk @ cs @ drop (unat (gpos s)) blk"
  define h' where "h' = h(buf s \<mapsto> blk')"
  have st: "store_bytes h (buf s) (unat (gpos s) - unat sz) cs = Some h'"
    using blk lcs nle le by (simp add: store_bytes_def h'_def blk'_def)
  have l': "length blk' = length blk" using lcs nle le blk by (simp add: blk'_def)
  have wf': "well_formed h' (s\<lparr>gpos := gpos s - sz\<rparr>)"
    by (rule well_formedI [where blk = blk']) (use l' blk nn le g in \<open>simp_all add: h'_def\<close>)
  have "content h' (s\<lparr>gpos := gpos s - sz\<rparr>) = cs @ content h s"
    using take_drop_put_head [of cs "unat (gpos s)" "unat (ppos s)" blk] le blk lcs nle reg g
    by (simp add: content_def region_def h'_def blk'_def)
  with wf' cb st g show ?thesis by (simp add: cs_def)
qed


lemma write_head_fits:
  assumes wf: "well_formed h s" and own: "\<not> const_buf s"
    and data: "unat sz \<le> length data"
    and room: "\<not> gpos s < sz"
  shows "\<exists>h'. write_head data sz ma h s = (Inr (s\<lparr>gpos := gpos s - sz\<rparr>), h') \<and>
      well_formed h' (s\<lparr>gpos := gpos s - sz\<rparr>) \<and>
      content h' (s\<lparr>gpos := gpos s - sz\<rparr>) = map Some (take (unat sz) data) @ content h s"
proof -
  from room have "sz \<le> gpos s" by simp
  from head_copy [OF wf own data this] obtain s' h' where
    "(let s = s\<lparr>gpos := gpos s - sz\<rparr> in
         case caller_bytes data (unat sz) of
           None \<Rightarrow> (Inl UndefinedBehaviour, h)
         | Some cs \<Rightarrow>
             (case store_bytes h (buf s) (unat (gpos s)) cs of
                None \<Rightarrow> (Inl UndefinedBehaviour, h)
              | Some h1 \<Rightarrow> (Inr s, h1))) = (Inr s', h')"
    and "s' = s\<lparr>gpos := gpos s - sz\<rparr>" "well_formed h' s'"
    "content h' s' = map Some (take (unat sz) data) @ content h s"
    by blast
  moreover have "write_head data sz ma h s =
      (let s = s\<lparr>gpos := gpos s - sz\<rparr> in
         case caller_bytes data (unat sz) of
           None \<Rightarrow> (Inl UndefinedBehaviour, h)
         | Some cs \<Rightarrow>
             (case store_bytes h (buf s) (unat (gpos s)) cs of
                None \<Rightarrow> (Inl UndefinedBehaviour, h)
              | Some h1 \<Rightarrow> (Inr s, h1)))"
    using own room by (simp add: write_head_def seq_def)
  ultimately show ?thesis by auto
qed

lemma write_head_moves:
  assumes wf: "well_formed h s" and own: "\<not> const_buf s"
    and data: "unat sz \<le> length data"
    and small: "gpos s < sz"
    and fit: "unat (ppos s) + unat sz < 2 ^ 64"
    and ma: "ma \<noteq> NULL" "ma \<noteq> buf s"
  defines "N \<equiv> max (sz + ppos s) (ppos s + RESERVED_HEADER_SPACE)"
  defines "ng \<equiv> N - (ppos s - gpos s)"
  defines "s' \<equiv> s\<lparr>buf := ma, gpos := ng - sz, ppos := N, pend := N\<rparr>"
  shows "sz \<le> ng \<and> unat (ng - sz) + unat sz \<le> unat N \<and>
     (\<exists>h'. write_head data sz ma h s = (Inr s', h') \<and> well_formed h' s' \<and>
        content h' s' = map Some (take (unat sz) data) @ content h s)"
proof -
  from wf obtain blk where blk: "h (buf s) = Some blk" "length blk = unat (pend s)"
    and nn: "buf s \<noteq> NULL"
    and le: "unat (gpos s) \<le> unat (ppos s)" "unat (ppos s) \<le> unat (pend s)"
    and reg: "region h s = blk"
    by (rule well_formedD)
  have ns: "unat (sz + ppos s) = unat sz + unat (ppos s)"
    using fit unat_add_lem [of sz "ppos s"] by simp
  have "sz + ppos s \<le> N" by (simp add: N_def)
  then have Nge: "unat sz + unat (ppos s) \<le> unat N"
    using ns by (simp add: word_le_nat_alt)
  have gle: "gpos s \<le> ppos s" using le by (simp add: word_le_nat_alt)
  have ul: "unat (ppos s - gpos s) = unat (ppos s) - unat (gpos s)"
    using gle by (rule unat_sub)
  have "ppos s - gpos s \<le> N" using ul Nge by (simp add: word_le_nat_alt)
  then have ung: "unat ng = unat N - (unat (ppos s) - unat (gpos s))"
    unfolding ng_def using ul by (simp add: unat_sub)
  have szng: "sz \<le> ng" using ung Nge le by (simp add: word_le_nat_alt)
  define c0 where "c0 = content h s"
  have lc0: "length c0 = unat (ppos s) - unat (gpos s)"
    using le blk reg by (simp add: c0_def content_def)
  define h1 where "h1 = h(ma \<mapsto> replicate (unat N) None)"
  have mal: "malloc (unat N) ma h = (ma, h1)" using ma by (simp add: malloc_def h1_def)
  have ld: "load_bytes h1 (buf s) (unat (gpos s)) (unat (ppos s - gpos s)) = Some c0"
    using blk ma le ul reg by (simp add: load_bytes_def h1_def c0_def content_def)
  define blk2 where "blk2 = replicate (unat ng) None @ c0"
  define h2 where "h2 = h1(ma \<mapsto> blk2)"
  have st: "store_bytes h1 ma (unat ng) c0 = Some h2"
    using ung lc0 Nge le by (simp add: store_bytes_def h1_def h2_def blk2_def)
  define h3 where "h3 = free (buf s) h2"
  define s1 where "s1 = s\<lparr>buf := ma, gpos := ng, ppos := N, pend := N\<rparr>"
  have l2: "length blk2 = unat N" using ung lc0 Nge le by (simp add: blk2_def)
  have h3ma: "h3 ma = Some blk2" using ma nn by (simp add: h3_def h2_def free_def)
  have ngN: "unat ng \<le> unat N" using ung by simp
  have wf1: "well_formed h3 s1"
    by (rule well_formedI [where blk = blk2]) (use h3ma l2 ma ngN in \<open>simp_all add: s1_def\<close>)
  have c1: "content h3 s1 = c0"
    using h3ma ung lc0 Nge le by (simp add: content_def region_def s1_def blk2_def)
  have own1: "\<not> const_buf s1" using own by (simp add: s1_def)
  have room1: "sz \<le> gpos s1" using szng by (simp add: s1_def)
  from head_copy [OF wf1 own1 data room1] obtain s2 h4 where
    body: "(let s = s1\<lparr>gpos := gpos s1 - sz\<rparr> in
         case caller_bytes data (unat sz) of
           None \<Rightarrow> (Inl UndefinedBehaviour, h3)
         | Some cs \<Rightarrow>
             (case store_bytes h3 (buf s) (unat (gpos s)) cs of
                None \<Rightarrow> (Inl UndefinedBehaviour, h3)
              | Some h1 \<Rightarrow> (Inr s, h1))) = (Inr s2, h4)"
    and s2: "s2 = s1\<lparr>gpos := gpos s1 - sz\<rparr>" and wf2: "well_formed h4 s2"
    and c2: "content h4 s2 = map Some (take (unat sz) data) @ content h3 s1"
    by blast
  have "write_head data sz ma h s =
      (let s = s1\<lparr>gpos := gpos s1 - sz\<rparr> in
         case caller_bytes data (unat sz) of
           None \<Rightarrow> (Inl UndefinedBehaviour, h3)
         | Some cs \<Rightarrow>
             (case store_bytes h3 (buf s) (unat (gpos s)) cs of
                None \<Rightarrow> (Inl UndefinedBehaviour, h3)
              | Some h1 \<Rightarrow> (Inr s, h1)))"
    using own small mal ld st ma
    by (simp add: write_head_def seq_def Let_def N_def [symmetric] ng_def [symmetric]
          s1_def [symmetric] h3_def [symmetric])
  with body have res: "write_head data sz ma h s = (Inr s2, h4)" by simp
  have s2': "s2 = s'" by (simp add: s2 s1_def s'_def)
  have "unat (ng - sz) + unat sz \<le> unat N"
    using szng ngN by (simp add: unat_sub word_le_nat_alt)
  with szng res wf2 c2 c1 s2' show ?thesis by (auto simp: c0_def)
qed


lemma write_head_ok:
  assumes wf: "well_formed h s" and own: "\<not> const_buf s"
    and data: "unat sz \<le> length data"
    and fit: "unat (ppos s) + unat sz < 2 ^ 64"
    and ma: "ma \<noteq> NULL" "ma \<noteq> buf s"
  shows "\<exists>s' h'. write_head data sz ma h s = (Inr s', h') \<and> well_formed h' s' \<and>
      content h' s' = map Some (take (unat sz) data) @ content h s"
proof (cases "gpos s < sz")
  case True
  from write_head_moves [OF wf own data True fit ma] show ?thesis by blast
next
  case False
  from write_head_fits [OF wf own data False] show ?thesis by blast
qed

lemma read_ok:
  assumes wf: "well_formed h s" and avail: "unat (gpos s) + unat sz \<le> unat (ppos s)"
  shows "read sz ra h s = (Inr (take (unat sz) (content h s), s\<lparr>gpos := gpos s + sz\<rparr>), h) \<and>
     well_formed h (s\<lparr>gpos := gpos s + sz\<rparr>) \<and>
     content h (s\<lparr>gpos := gpos s + sz\<rparr>) = drop (unat sz) (content h s)"
proof -
  from wf obtain blk where blk: "h (buf s) = Some blk" "length blk = unat (pend s)"
    and nn: "buf s \<noteq> NULL"
    and le: "unat (gpos s) \<le> unat (ppos s)" "unat (ppos s) \<le> unat (pend s)"
    and reg: "region h s = blk"
    by (rule well_formedD)
  have "unat (ppos s) < 2 ^ 64" using unsigned_less [of "ppos s"] by simp
  with avail have ns: "unat (gpos s + sz) = unat (gpos s) + unat sz"
    using unat_add_lem [of "gpos s" sz] by simp
  then have chk: "gpos s + sz \<le> ppos s" using avail by (simp add: word_le_nat_alt)
  have ld: "load_bytes h (buf s) (unat (gpos s)) (unat sz) = Some (take (unat sz) (content h s))"
    using blk avail le reg by (simp add: load_bytes_def content_def)
  have res: "read sz ra h s = (Inr (take (unat sz) (content h s), s\<lparr>gpos := gpos s + sz\<rparr>), h)"
    using chk ld by (simp add: read_simp)
  have wf': "well_formed h (s\<lparr>gpos := gpos s + sz\<rparr>)"
    by (rule well_formedI [where blk = blk]) (use blk nn le ns avail in simp_all)
  have "content h (s\<lparr>gpos := gpos s + sz\<rparr>) = drop (unat sz) (content h s)"
    using reg ns by (simp add: content_def region_def drop_take add.commute)
  with res wf' show ?thesis by simp
qed

lemma owned_well_formed:
  "a \<noteq> NULL \<Longrightarrow> well_formed (snd (StreamBuffer_owned a h)) (fst (StreamBuffer_owned a h))"
  by (simp add: StreamBuffer_owned_def malloc_def well_formed_def invariant_def region_def
      RESERVED_HEADER_SPACE_def)

lemma owned_empty:
  "a \<noteq> NULL \<Longrightarrow> content (snd (StreamBuffer_owned a h)) (fst (StreamBuffer_owned a h)) = []"
  by (simp add: StreamBuffer_owned_def malloc_def content_def RESERVED_HEADER_SPACE_def)

lemma borrowed_well_formed:
  "p \<noteq> NULL \<Longrightarrow> h p = Some blk \<Longrightarrow> length blk = unat sz \<Longrightarrow>
   well_formed h (StreamBuffer_borrowed p sz) \<and> content h (StreamBuffer_borrowed p sz) = blk"
  by (simp add: StreamBuffer_borrowed_def well_formed_def invariant_def region_def content_def)

lemma writes_ok:
  "well_formed h s \<Longrightarrow> \<not> const_buf s \<Longrightarrow> valid_writes ws \<Longrightarrow>
   unat (ppos s) + length (written ws) < 2 ^ 64 \<Longrightarrow>
   \<exists>s' h'. writes ws h s = (Inr s', h') \<and> well_formed h' s' \<and> \<not> const_buf s' \<and>
      gpos s' = gpos s \<and> content h' s' = content h s @ map Some (written ws)"
proof (induction ws arbitrary: h s)
  case Nil
  then show ?case by simp
next
  case (Cons w ws)
  obtain data sz ra where w: "w = (data, sz, ra)" by (cases w)
  from Cons.prems w have v: "unat sz \<le> length data" "ra \<noteq> NULL" "valid_writes ws" by simp_all
  have len: "length (written (w # ws)) = unat sz + length (written ws)"
    using v w by simp
  with Cons.prems(4) have fit: "unat (ppos s) + unat sz < 2 ^ 64" by linarith
  from write'_ok [OF Cons.prems(1,2) v(1) fit v(2)] obtain s1 h1 where
    w1: "write' data sz ra h s = (Inr s1, h1)" and wf1: "well_formed h1 s1"
    and own1: "\<not> const_buf s1" and g1: "gpos s1 = gpos s" and p1: "ppos s1 = ppos s + sz"
    and c1: "content h1 s1 = content h s @ map Some (take (unat sz) data)"
    by blast
  have "unat (ppos s1) = unat (ppos s) + unat sz"
    using fit unat_add_lem [of "ppos s" sz] by (simp add: p1)
  with Cons.prems(4) len have fit1: "unat (ppos s1) + length (written ws) < 2 ^ 64" by linarith
  from Cons.IH [OF wf1 own1 v(3) fit1] obtain s' h' where
    "writes ws h1 s1 = (Inr s', h')" "well_formed h' s'" "\<not> const_buf s'"
    "gpos s' = gpos s1" "content h' s' = content h1 s1 @ map Some (written ws)"
    by blast
  with w1 g1 c1 w show ?case by simp
qed

lemma reads_ok:
  "well_formed h s \<Longrightarrow> sizes rs \<le> length (content h s) \<Longrightarrow>
   \<exists>s'. reads rs h s = (Inr (take (sizes rs) (content h s), s'), h) \<and> well_formed h s' \<and>
      content h s' = drop (sizes rs) (content h s)"
proof (induction rs arbitrary: s)
  case Nil
  then show ?case by simp
next
  case (Cons r rs)
  obtain sz ra where r: "r = (sz, ra)" by (cases r)
  from Cons.prems(1) obtain blk where blk: "h (buf s) = Some blk" "length blk = unat (pend s)"
    and le: "unat (gpos s) \<le> unat (ppos s)" "unat (ppos s) \<le> unat (pend s)"
    and reg: "region h s = blk"
    by (rule well_formedD)
  have lc: "length (content h s) = unat (ppos s) - unat (gpos s)"
    using blk le reg by (simp add: content_def)
  with Cons.prems(2) r le have avail: "unat (gpos s) + unat sz \<le> unat (ppos s)" by simp
  from read_ok [OF Cons.prems(1) avail, of ra] have
    r1: "read sz ra h s = (Inr (take (unat sz) (content h s), s\<lparr>gpos := gpos s + sz\<rparr>), h)"
    and wf1: "well_formed h (s\<lparr>gpos := gpos s + sz\<rparr>)"
    and c1: "content h (s\<lparr>gpos := gpos s + sz\<rparr>) = drop (unat sz) (content h s)"
    by simp_all
  from Cons.prems(2) r have "sizes rs \<le> length (content h (s\<lparr>gpos := gpos s + sz\<rparr>))"
    by (simp add: c1)
  from Cons.IH [OF wf1 this] obtain s' where
    "reads rs h (s\<lparr>gpos := gpos s + sz\<rparr>) =
       (Inr (take (sizes rs) (content h (s\<lparr>gpos := gpos s + sz\<rparr>)), s'), h)"
    "well_formed h s'"
    "content h s' = drop (sizes rs) (content h (s\<lparr>gpos := gpos s + sz\<rparr>))"
    by blast
  moreover have "drop (sizes rs) (drop (unat sz) (content h s)) = drop (unat sz + sizes rs) (content h s)"
    by (simp add: add.commute)
  ultimately show ?case using r1 c1 r by (simp add: take_add del: drop_drop)
qed

lemma empty_content: "gpos s = ppos s \<Longrightarrow> content h s = []"
  by (simp add: content_def)

lemma unat_max: "unat (max a b) = max (unat a) (unat b)" for a b :: "'a::len word"
  by (simp add: max_def word_le_nat_alt)

text \<open>
  Whatever succeeds on a well-formed object leaves a well-formed object: \<^verbatim>\<open>read\<close>,
  \<^verbatim>\<open>write\<close> and \<^verbatim>\<open>write_head\<close> keep the invariant, and \<^verbatim>\<open>set_buf\<close> establishes it.
\<close>

lemma set_buf_invariant: "invariant (set_buf p sz s)"
  by (simp add: set_buf_def invariant_def)

lemma read_preserves:
  assumes wf: "well_formed h s" and r: "read sz ra h s = (Inr (out, s'), h')"
  shows "well_formed h' s'"
proof -
  from wf obtain blk where blk: "h (buf s) = Some blk" "length blk = unat (pend s)"
    and le: "unat (ppos s) \<le> unat (pend s)"
    by (rule well_formedD)
  from r have chk: "gpos s + sz \<le> ppos s"
    and ld: "load_bytes h (buf s) (unat (gpos s)) (unat sz) \<noteq> None"
    and eq: "h' = h" "s' = s\<lparr>gpos := gpos s + sz\<rparr>"
    by (auto simp: read_simp split: if_splits option.splits)
  from ld blk have "unat (gpos s) + unat sz \<le> unat (pend s)"
    by (simp add: load_bytes_def split: if_splits)
  moreover have "unat (pend s) < 2 ^ LENGTH(64)" by (rule unsigned_less)
  ultimately have "unat (gpos s) + unat sz < 2 ^ LENGTH(64)" by (rule le_less_trans)
  then have "unat (gpos s + sz) = unat (gpos s) + unat sz" by (simp only: unat_add_lem)
  with chk have "unat (gpos s) + unat sz \<le> unat (ppos s)" by (simp add: word_le_nat_alt)
  from read_ok [OF wf this, of ra] eq show ?thesis by simp
qed

lemma write'_preserves:
  assumes wf: "well_formed h s" and r: "write' data sz ra h s = (Inr s', h')"
  shows "well_formed h' s'"
proof -
  from wf obtain blk where blk: "h (buf s) = Some blk" "length blk = unat (pend s)"
    and nn: "buf s \<noteq> NULL" and le: "unat (ppos s) \<le> unat (pend s)"
    by (rule well_formedD)
  from r have own: "\<not> const_buf s" by (auto simp: write'_def)
  show ?thesis
  proof (cases "pend s < sz + ppos s")
    case True
    from r own True blk nn have ra: "ra \<noteq> NULL"
      by (auto simp: write'_def seq_def realloc_def Let_def split: if_splits)
    from r own True blk nn ra have data: "unat sz \<le> length data"
      by (auto simp: write'_def seq_def realloc_def caller_bytes_def Let_def split: if_splits)
    from write'_grow [OF wf own data True ra] r show ?thesis by auto
  next
    case False
    from r own False have data: "unat sz \<le> length data"
      by (auto simp: write'_def seq_def caller_bytes_def Let_def split: if_splits)
    from r own False data blk have "unat (ppos s) + unat sz \<le> unat (pend s)"
      by (auto simp: write'_def seq_def caller_bytes_def store_bytes_def Let_def split: if_splits)
    moreover have "unat (pend s) < 2 ^ LENGTH(64)" by (rule unsigned_less)
    ultimately have "unat (ppos s) + unat sz < 2 ^ LENGTH(64)" by (rule le_less_trans)
    then have fit: "unat (ppos s) + unat sz < 2 ^ 64" by simp
    from write'_room [OF wf own data fit False, where ra = ra] r show ?thesis by auto
  qed
qed

lemma store_bytes_SomeD:
  assumes "store_bytes h p off cs = Some h'"
  obtains blk where "h p = Some blk" "off + length cs \<le> length blk"
    "h' = h(p \<mapsto> take off blk @ cs @ drop (off + length cs) blk)"
  using assms by (auto simp: store_bytes_def split: option.splits if_splits)

lemma store_bytes_length:
  assumes "store_bytes h p off cs = Some h'" and "h p = Some blk"
  shows "\<exists>blk'. h' p = Some blk' \<and> length blk' = length blk"
  using assms by (auto simp: store_bytes_def split: option.splits if_splits)

lemma write_head_preserves:
  assumes wf: "well_formed h s" and r: "write_head data sz ma h s = (Inr s', h')"
  shows "well_formed h' s'"
proof -
  from r have own: "\<not> const_buf s" by (auto simp: write_head_def)
  show ?thesis
  proof (cases "gpos s < sz")
    case False
    from r own False have data: "unat sz \<le> length data"
      by (auto simp: write_head_def seq_def caller_bytes_def Let_def split: if_splits)
    from write_head_fits [OF wf own data False, of ma] r show ?thesis by auto
  next
    case True
    define N where "N = max (sz + ppos s) (ppos s + RESERVED_HEADER_SPACE)"
    define ng where "ng = N - (ppos s - gpos s)"
    define h1 where "h1 = h(ma \<mapsto> replicate (unat N) None)"
    from r own True have nn: "ma \<noteq> NULL"
      by (auto simp: write_head_def seq_def malloc_def Let_def split: if_splits)
    then have mal: "malloc (unat N) ma h = (ma, h1)" by (simp add: malloc_def h1_def)
    from r own True nn mal obtain cs0 h2 cs h4 where
      st1: "store_bytes h1 ma (unat ng) cs0 = Some h2"
      and st2: "store_bytes (free (buf s) h2) ma (unat (ng - sz)) cs = Some h4"
      and res: "s' = s\<lparr>buf := ma, gpos := ng - sz, ppos := N, pend := N\<rparr>" "h' = h4"
      by (auto simp: write_head_def seq_def Let_def N_def [symmetric] ng_def [symmetric]
          split: option.splits)
    have "h1 ma = Some (replicate (unat N) None)" by (simp add: h1_def)
    from store_bytes_length [OF st1 this] obtain blk2 where
      b2: "h2 ma = Some blk2" "length blk2 = unat N" by auto
    from st2 obtain blk3 where b3: "free (buf s) h2 ma = Some blk3"
      and in3: "unat (ng - sz) + length cs \<le> length blk3"
      by (rule store_bytes_SomeD)
    from b3 b2 have l3: "length blk3 = unat N" by (auto simp: free_def split: if_splits)
    from store_bytes_length [OF st2 b3] obtain blk4 where
      b4: "h4 ma = Some blk4" "length blk4 = length blk3" by auto
    show ?thesis
      by (rule well_formedI [where blk = blk4]) (use b4 l3 in3 nn in \<open>simp_all add: res\<close>)
  qed
qed

section \<open>\<^verbatim>\<open>swap\<close> and the concrete objects\<close>

lemma swap_distinct:
  "this \<noteq> rhs \<Longrightarrow>
   swap this rhs st this =
     (st this)\<lparr>const_buf := const_buf (st rhs), buf := buf (st rhs), pend := pend (st rhs),
               gpos := ppos (st rhs), ppos := gpos (st this)\<rparr> \<and>
   swap this rhs st rhs =
     (st rhs)\<lparr>const_buf := const_buf (st this), buf := buf (st this), pend := pend (st this),
               ppos := ppos (st this)\<rparr>"
  by (simp add: swap_def std_swap_def Let_def)

lemma swap_self:
  "swap this this st this = (st this)\<lparr>gpos := ppos (st this), ppos := gpos (st this)\<rparr>"
  by (simp add: swap_def std_swap_def Let_def)

lemma fresh_simp: "fresh = \<lparr>buf = 1, const_buf = False, pend = 128, gpos = 64, ppos = 64\<rparr>"
  by (simp add: fresh_def StreamBuffer_owned_def malloc_def NULL_def RESERVED_HEADER_SPACE_def)

lemma fresh_heap_simp: "fresh_heap = caller_heap(1 \<mapsto> replicate 128 None)"
  by (simp add: fresh_heap_def StreamBuffer_owned_def malloc_def NULL_def RESERVED_HEADER_SPACE_def)

lemma fresh_well_formed: "well_formed fresh_heap fresh"
  unfolding fresh_def fresh_heap_def by (rule owned_well_formed) (simp add: NULL_def)

lemma one_byte_reached: "write' [1] 1 0 fresh_heap fresh = (Inr one_byte, one_byte_heap)"
  by (simp add: fresh_simp fresh_heap_simp write'_def seq_def caller_bytes_def store_bytes_def
      one_byte_def one_byte_heap_def)

lemma one_byte_well_formed: "well_formed one_byte_heap one_byte"
  by (simp add: well_formed_def invariant_def region_def one_byte_def one_byte_heap_def NULL_def)

lemma one_byte_read:
  "read 1 0 one_byte_heap one_byte = (Inr ([Some 1], one_byte\<lparr>gpos := 65\<rparr>), one_byte_heap)"
  by (simp add: read_simp load_bytes_def one_byte_def one_byte_heap_def)

section \<open>The claims\<close>

subsection \<open>\<^verbatim>\<open>swap\<close>\<close>

text \<open>
  C1: for every pair of instances \<open>a\<close> and \<open>b\<close>, \<^verbatim>\<open>a.swap(b)\<close> exchanges all internal
  state: afterwards \<open>a\<close> holds the storage pointer, the ownership flag, \<open>capacity_end\<close>,
  \<open>read_pos\<close> and \<open>write_pos\<close> that \<open>b\<close> had, and \<open>b\<close> holds those of \<open>a\<close>.

  The code does not do this. Its fourth line swaps \<open>gpos\<close> of the one object with \<open>ppos\<close>
  of the other, so that (\<open>swap_distinct\<close>) the first object ends with the other's
  \<open>ppos\<close> as its \<open>gpos\<close> and its own old \<open>gpos\<close> as its \<open>ppos\<close>, and the other keeps its
  \<open>gpos\<close>. Here the first object is the owned object with one unread byte (offsets 64
  and 65) and the second the borrowed object over ten bytes (offsets 0 and 10): after
  the call the first has the offsets 10 and 64 where the claim has 0 and 10, and the
  second has 0 and 65 where the claim has 64 and 65.
\<close>

theorem swap_mixes_offsets:
  "swap (0::nat) 1 ((\<lambda>_. borrowed)(0 := one_byte)) 0
     = \<lparr>buf = 2, const_buf = True, pend = 10, gpos = 10, ppos = 64\<rparr> \<and>
   swap (0::nat) 1 ((\<lambda>_. borrowed)(0 := one_byte)) 1
     = \<lparr>buf = 1, const_buf = False, pend = 128, gpos = 0, ppos = 65\<rparr> \<and>
   swap (0::nat) 1 ((\<lambda>_. borrowed)(0 := one_byte)) 0 \<noteq> borrowed \<and>
   swap (0::nat) 1 ((\<lambda>_. borrowed)(0 := one_byte)) 1 \<noteq> one_byte"
  by (simp add: swap_def std_swap_def Let_def borrowed_def StreamBuffer_borrowed_def one_byte_def)

text \<open>
  C2: the invariant \<open>read_pos \<le> write_pos \<le> capacity_end\<close> holds in every state reachable
  from a freshly constructed object, owned or borrowed, by the public operations
  \<^verbatim>\<open>write\<close>, \<^verbatim>\<open>read\<close>, \<^verbatim>\<open>write_head\<close>, \<^verbatim>\<open>swap\<close>, \<^verbatim>\<open>set_buf\<close> and \<^verbatim>\<open>get_size\<close>.

  \<^verbatim>\<open>swap\<close> breaks it, by the same line as in C1. A freshly constructed owned object and
  a freshly constructed borrowed object over ten bytes both satisfy the invariant; after
  the owned one is swapped with the borrowed one it has \<open>ppos = 64\<close> and \<open>pend = 10\<close>.
  The other operations keep it: \<open>owned_well_formed\<close>, \<open>borrowed_well_formed\<close>,
  \<open>set_buf_invariant\<close>, \<open>read_preserves\<close>, \<open>write'_preserves\<close> and \<open>write_head_preserves\<close>.
\<close>

theorem swap_breaks_invariant:
  "invariant fresh \<and> invariant borrowed \<and>
   swap (0::nat) 1 ((\<lambda>_. borrowed)(0 := fresh)) 0
     = \<lparr>buf = 2, const_buf = True, pend = 10, gpos = 10, ppos = 64\<rparr> \<and>
   \<not> invariant (swap (0::nat) 1 ((\<lambda>_. borrowed)(0 := fresh)) 0)"
  by (simp add: swap_def std_swap_def Let_def borrowed_def StreamBuffer_borrowed_def fresh_simp
      invariant_def)

subsection \<open>Borrowed objects\<close>

text \<open>
  C5: on a borrowed object, \<^verbatim>\<open>write\<close> and \<^verbatim>\<open>write_head\<close> end in a fatal assertion
  failure whatever the bytes, and the bytes of the borrowed region are not modified: the
  memory at the failure is the memory before the call.
\<close>

theorem borrowed_rejects_writes:
  "const_buf s \<Longrightarrow>
   write' data sz ra h s = (Inl WritingConstBuffer, h) \<and>
   write_head data sz ma h s = (Inl WritingConstBuffer, h)"
  by (simp add: write'_def write_head_def)

theorem borrowed_rejects_writes_witness:
  "write' [1, 2, 3] 3 5 caller_heap borrowed = (Inl WritingConstBuffer, caller_heap) \<and>
   write_head [1, 2, 3] 3 5 caller_heap borrowed = (Inl WritingConstBuffer, caller_heap)"
  using borrowed_rejects_writes [of borrowed "[1, 2, 3]" 3 5 caller_heap 5]
  by (simp add: borrowed_def StreamBuffer_borrowed_def)

subsection \<open>\<^verbatim>\<open>get_size\<close> and \<^verbatim>\<open>read\<close>\<close>

text \<open>
  C8: \<^verbatim>\<open>get_size\<close> returns \<open>write_pos - read_pos\<close>, and has no side effect (it is a
  function of the object that returns nothing but the number); after a successful
  \<^verbatim>\<open>read\<close> of exactly \<^verbatim>\<open>get_size()\<close> bytes, \<^verbatim>\<open>get_size\<close> returns 0. Both hold in every
  state, the difference being that of \<^verbatim>\<open>size_t\<close>. On a well-formed object the difference
  is the number of unread bytes, and the \<^verbatim>\<open>read\<close> of that many bytes does succeed and
  returns the whole logical content.
\<close>

theorem get_size_accounting:
  "get_size s = ppos s - gpos s \<and>
   (read (get_size s) ra h s = (Inr (out, s'), h') \<longrightarrow> get_size s' = 0) \<and>
   (well_formed h s \<longrightarrow>
      unat (get_size s) = unat (ppos s) - unat (gpos s) \<and>
      (\<exists>s'. read (get_size s) ra h s = (Inr (content h s, s'), h) \<and> get_size s' = 0))"
proof (intro conjI impI)
  show "get_size s = ppos s - gpos s" by (simp add: get_size_def)
next
  assume "read (get_size s) ra h s = (Inr (out, s'), h')"
  then have "s' = s\<lparr>gpos := gpos s + get_size s\<rparr>"
    by (auto simp: read_simp split: if_splits option.splits)
  then show "get_size s' = 0" by (simp add: get_size_def)
next
  assume wf: "well_formed h s"
  then obtain blk where blk: "h (buf s) = Some blk" "length blk = unat (pend s)"
    and le: "unat (gpos s) \<le> unat (ppos s)" "unat (ppos s) \<le> unat (pend s)"
    and reg: "region h s = blk"
    by (rule well_formedD)
  from le(1) have "gpos s \<le> ppos s" by (simp add: word_le_nat_alt)
  then show u: "unat (get_size s) = unat (ppos s) - unat (gpos s)"
    by (simp add: get_size_def unat_sub)
  then have avail: "unat (gpos s) + unat (get_size s) \<le> unat (ppos s)" using le by simp
  have lc: "length (content h s) = unat (get_size s)"
    using u blk le reg by (simp add: content_def)
  from read_ok [OF wf avail, of ra] lc
  have "read (get_size s) ra h s = (Inr (content h s, s\<lparr>gpos := gpos s + get_size s\<rparr>), h)"
    by simp
  moreover have "get_size (s\<lparr>gpos := gpos s + get_size s\<rparr>) = 0" by (simp add: get_size_def)
  ultimately show "\<exists>s'. read (get_size s) ra h s = (Inr (content h s, s'), h) \<and> get_size s' = 0"
    by blast
qed

theorem get_size_accounting_witness:
  "get_size one_byte = 1 \<and>
   (\<exists>s'. read (get_size one_byte) 0 one_byte_heap one_byte
           = (Inr (content one_byte_heap one_byte, s'), one_byte_heap) \<and> get_size s' = 0)"
proof -
  have "get_size one_byte = 1" by (simp add: get_size_def one_byte_def)
  moreover from get_size_accounting [of one_byte 0 one_byte_heap "[]" one_byte one_byte_heap]
    one_byte_well_formed
  have "\<exists>s'. read (get_size one_byte) 0 one_byte_heap one_byte
           = (Inr (content one_byte_heap one_byte, s'), one_byte_heap) \<and> get_size s' = 0"
    by blast
  ultimately show ?thesis by blast
qed

text \<open>
  C10: with \<open>SHRINK_WITH_GET\<close> off, as it is, a successful \<^verbatim>\<open>read\<close> of \<open>n\<close> bytes changes
  \<open>read_pos\<close> only, which it advances by \<open>n\<close>: the storage pointer, the ownership flag,
  \<open>capacity_end\<close> and \<open>write_pos\<close> are as before, and so is the whole memory, the stored
  bytes with it.
\<close>

theorem read_changes_gpos_only:
  "read sz ra h s = (Inr (out, s'), h') \<Longrightarrow>
   h' = h \<and> buf s' = buf s \<and> const_buf s' = const_buf s \<and> pend s' = pend s \<and>
   ppos s' = ppos s \<and> gpos s' = gpos s + sz"
  by (auto simp: read_simp split: if_splits option.splits)

theorem read_changes_gpos_only_witness:
  "read 1 0 one_byte_heap one_byte = (Inr ([Some 1], one_byte\<lparr>gpos := 65\<rparr>), one_byte_heap) \<and>
   buf (one_byte\<lparr>gpos := 65\<rparr>) = buf one_byte \<and>
   const_buf (one_byte\<lparr>gpos := 65\<rparr>) = const_buf one_byte \<and>
   pend (one_byte\<lparr>gpos := 65\<rparr>) = pend one_byte \<and>
   ppos (one_byte\<lparr>gpos := 65\<rparr>) = ppos one_byte \<and>
   gpos (one_byte\<lparr>gpos := 65\<rparr>) = gpos one_byte + 1"
  using read_changes_gpos_only [OF one_byte_read] one_byte_read by blast

text \<open>
  C6: \<^verbatim>\<open>read(n)\<close> ends in a fatal assertion failure exactly when
  \<open>read_pos + n > write_pos\<close>, and otherwise succeeds, returns the next \<open>n\<close> unread bytes
  and advances \<open>read_pos\<close> by \<open>n\<close>.

  The code does not do this where the sum wraps around. Its assertion, whose message is
  \<^verbatim>\<open>reading beyond the array\<close>, compares \<open>gpos + sz\<close> as \<^verbatim>\<open>size_t\<close> computes it. On the
  freshly constructed owned object (\<open>gpos = ppos = 64\<close>, nothing unread, a block of 128) a
  \<^verbatim>\<open>read\<close> of \<open>2\<^sup>6\<^sup>4 - 1\<close> bytes reads beyond what was written, yet the sum is 63 and the
  assertion passes: the call does not end in the assertion failure, and the copy that
  follows leaves the block.
\<close>

theorem read_assertion_bypassed:
  "well_formed fresh_heap fresh \<and>
   unat (ppos fresh) < unat (gpos fresh) + unat (0xFFFFFFFFFFFFFFFF :: size_t) \<and>
   gpos fresh + 0xFFFFFFFFFFFFFFFF = 63 \<and>
   gpos fresh + 0xFFFFFFFFFFFFFFFF \<le> ppos fresh \<and>
   read 0xFFFFFFFFFFFFFFFF 0 fresh_heap fresh = (Inl UndefinedBehaviour, fresh_heap) \<and>
   fst (read 0xFFFFFFFFFFFFFFFF 0 fresh_heap fresh) \<noteq> Inl ReadingBeyondArray"
  using fresh_well_formed
  by (simp add: read_simp load_bytes_def fresh_simp fresh_heap_simp)

text \<open>
  Where the sum does not wrap around, \<^verbatim>\<open>read\<close> on a well-formed object does what the
  claim says: it fails the assertion exactly when \<open>read_pos + n\<close> exceeds \<open>write_pos\<close>, and
  otherwise returns the first \<open>n\<close> cells of the logical content, which are the cells of the
  region from offset \<open>read_pos\<close> on, and advances \<open>read_pos\<close> by \<open>n\<close>.
\<close>

lemma read_checks_bounds:
  assumes wf: "well_formed h s" and fit: "unat (gpos s) + unat sz < 2 ^ 64"
  shows "read sz ra h s =
     (if unat (ppos s) < unat (gpos s) + unat sz then (Inl ReadingBeyondArray, h)
      else (Inr (take (unat sz) (content h s), s\<lparr>gpos := gpos s + sz\<rparr>), h)) \<and>
     unat (gpos s + sz) = unat (gpos s) + unat sz \<and>
     take (unat sz) (content h s)
       = take (min (unat sz) (unat (ppos s) - unat (gpos s))) (drop (unat (gpos s)) (region h s))"
proof -
  have ns: "unat (gpos s + sz) = unat (gpos s) + unat sz"
    using fit unat_add_lem [of "gpos s" sz] by simp
  have r: "read sz ra h s =
     (if unat (ppos s) < unat (gpos s) + unat sz then (Inl ReadingBeyondArray, h)
      else (Inr (take (unat sz) (content h s), s\<lparr>gpos := gpos s + sz\<rparr>), h))"
  proof (cases "unat (ppos s) < unat (gpos s) + unat sz")
    case True
    then have "\<not> gpos s + sz \<le> ppos s" using ns by (simp add: word_le_nat_alt)
    with True show ?thesis by (simp add: read_simp)
  next
    case False
    then have "unat (gpos s) + unat sz \<le> unat (ppos s)" by simp
    from read_ok [OF wf this, of ra] False show ?thesis by simp
  qed
  have "take (unat sz) (content h s)
      = take (min (unat sz) (unat (ppos s) - unat (gpos s))) (drop (unat (gpos s)) (region h s))"
    by (simp add: content_def)
  with r ns show ?thesis by blast
qed

lemma read_checks_bounds_example:
  "read 1 0 one_byte_heap one_byte
     = (Inr (take 1 (content one_byte_heap one_byte), one_byte\<lparr>gpos := gpos one_byte + 1\<rparr>),
        one_byte_heap) \<and>
   read 2 0 one_byte_heap one_byte = (Inl ReadingBeyondArray, one_byte_heap)"
proof -
  have "unat (gpos one_byte) + unat (1 :: size_t) < 2 ^ 64" by (simp add: one_byte_def)
  from read_checks_bounds [OF one_byte_well_formed this, of 0]
  have a: "read 1 0 one_byte_heap one_byte
     = (Inr (take 1 (content one_byte_heap one_byte), one_byte\<lparr>gpos := gpos one_byte + 1\<rparr>),
        one_byte_heap)"
    by (simp add: one_byte_def)
  have "unat (gpos one_byte) + unat (2 :: size_t) < 2 ^ 64" by (simp add: one_byte_def)
  from read_checks_bounds [OF one_byte_well_formed this, of 0]
  have b: "read 2 0 one_byte_heap one_byte = (Inl ReadingBeyondArray, one_byte_heap)"
    by (simp add: one_byte_def)
  from a b show ?thesis by blast
qed

subsection \<open>\<^verbatim>\<open>write\<close>\<close>

text \<open>
  C7: when \<^verbatim>\<open>write\<close> is called on an owned object with \<open>n\<close> bytes and
  \<open>write_pos + n > capacity_end\<close>, \<open>capacity_end\<close> becomes
  \<open>max (write_pos + n) (write_pos + GROW_SIZE)\<close> with \<open>GROW_SIZE = 1024\<close>, and every byte
  stored at an offset below \<open>write_pos\<close> is unchanged at its offset after the growth.

  The comparison and the maximum are those the code computes, in \<^verbatim>\<open>size_t\<close>. On a
  well-formed object the comparison holds exactly when \<open>write_pos + n\<close>, as a number,
  exceeds \<open>capacity_end\<close> and has not wrapped around (\<open>grows_iff\<close>), and where
  \<open>write_pos + 1024\<close> does not wrap either the new capacity is the maximum of the two
  sums as numbers. The object is well-formed, the caller's array holds the \<open>n\<close> bytes, and
  \<^verbatim>\<open>realloc\<close> answers with a block.
\<close>

theorem write_grows_capacity:
  assumes wf: "well_formed h s" and own: "\<not> const_buf s" and data: "unat sz \<le> length data"
    and full: "pend s < sz + ppos s" and ra: "ra \<noteq> NULL"
  shows "\<exists>s' h'. write' data sz ra h s = (Inr s', h') \<and>
      pend s' = max (ppos s + sz) (ppos s + GROW_SIZE) \<and> GROW_SIZE = 1024 \<and>
      (unat (ppos s) + 1024 < 2 ^ 64 \<longrightarrow>
         unat (pend s') = max (unat (ppos s) + unat sz) (unat (ppos s) + 1024)) \<and>
      length (region h' s') = unat (pend s') \<and>
      take (unat (ppos s)) (region h' s') = take (unat (ppos s)) (region h s) \<and>
      (\<forall>i < unat (ppos s). region h' s' ! i = region h s ! i)"
proof -
  define N where "N = max (sz + ppos s) (ppos s + GROW_SIZE)"
  define s' where "s' = s\<lparr>buf := ra, pend := N, ppos := ppos s + sz\<rparr>"
  from write'_grow [OF assms] obtain h' where
    r: "write' data sz ra h s = (Inr s', h')" and wf': "well_formed h' s'"
    and k: "take (unat (ppos s)) (region h' s') = take (unat (ppos s)) (region h s)"
    unfolding N_def s'_def by blast
  from wf' have len: "length (region h' s') = unat (pend s')" by (simp add: well_formed_def)
  have idx: "\<forall>i < unat (ppos s). region h' s' ! i = region h s ! i"
  proof (intro allI impI)
    fix i assume "i < unat (ppos s)"
    then have "region h' s' ! i = take (unat (ppos s)) (region h' s') ! i" by simp
    also have "\<dots> = take (unat (ppos s)) (region h s) ! i" by (simp only: k)
    also have "\<dots> = region h s ! i" using \<open>i < unat (ppos s)\<close> by simp
    finally show "region h' s' ! i = region h s ! i" .
  qed
  from wf have "unat (ppos s) \<le> unat (pend s)" by (rule well_formedD)
  from this full have fit: "unat (ppos s) + unat sz < 2 ^ 64" by (rule grows_fits)
  have a: "unat (sz + ppos s) = unat (ppos s) + unat sz"
    using fit unat_add_lem [of sz "ppos s"] by simp
  have b: "unat (ppos s) + 1024 < 2 ^ 64 \<longrightarrow> unat (ppos s + GROW_SIZE) = unat (ppos s) + 1024"
    using unat_add_lem [of "ppos s" GROW_SIZE] by (simp add: GROW_SIZE_def)
  have nat: "unat (ppos s) + 1024 < 2 ^ 64 \<longrightarrow>
         unat (pend s') = max (unat (ppos s) + unat sz) (unat (ppos s) + 1024)"
    using a b by (simp add: s'_def N_def unat_max)
  have "pend s' = max (ppos s + sz) (ppos s + GROW_SIZE)"
    by (simp add: s'_def N_def add.commute)
  moreover have "GROW_SIZE = 1024" by (simp add: GROW_SIZE_def)
  ultimately show ?thesis using r len k idx nat by blast
qed

theorem write_grows_capacity_witness:
  "\<exists>s' h'. write' (replicate 100 5) 100 3 fresh_heap fresh = (Inr s', h') \<and>
      pend s' = 1088 \<and> take 64 (region h' s') = take 64 (region fresh_heap fresh)"
proof -
  have "pend fresh < 100 + ppos fresh" by (simp add: fresh_simp)
  from write_grows_capacity [OF fresh_well_formed _ _ this, of "replicate 100 5" 3]
  have "\<exists>s' h'. write' (replicate 100 5) 100 3 fresh_heap fresh = (Inr s', h') \<and>
      pend s' = 1088 \<and> take 64 (region h' s') = take 64 (region fresh_heap fresh)"
    by (auto simp: fresh_simp NULL_def GROW_SIZE_def)
  then show ?thesis by blast
qed

text \<open>
  C3: on an owned object, writes of byte sequences of total length \<open>L\<close> followed by reads
  of total length \<open>L\<close> return, concatenated, the bytes that were written, in order.

  As amended: on a well-formed owned object that holds no unread bytes
  (\<open>read_pos = write_pos\<close>, as after construction), when every array holds the bytes its
  call names, \<^verbatim>\<open>realloc\<close> answers every call with a block, and \<open>write_pos + L\<close> does not
  exceed the largest \<^verbatim>\<open>size_t\<close>. Then every call succeeds and the reads deliver the bytes
  written.
\<close>

theorem round_trip_from_empty:
  assumes wf: "well_formed h s" and own: "\<not> const_buf s" and empty: "gpos s = ppos s"
    and valid: "valid_writes ws"
    and fit: "unat (ppos s) + length (written ws) < 2 ^ 64"
    and total: "sizes rs = length (written ws)"
  shows "fst (round_trip ws rs h s) = Inr (map Some (written ws))"
proof -
  from writes_ok [OF wf own valid fit] obtain s1 h1 where
    w: "writes ws h s = (Inr s1, h1)" and wf1: "well_formed h1 s1"
    and c1: "content h1 s1 = content h s @ map Some (written ws)"
    by blast
  from c1 empty have c1': "content h1 s1 = map Some (written ws)" by (simp add: empty_content)
  with total have "sizes rs \<le> length (content h1 s1)" by simp
  from reads_ok [OF wf1 this] obtain s2 where
    "reads rs h1 s1 = (Inr (take (sizes rs) (content h1 s1), s2), h1)" by blast
  with c1' total have "reads rs h1 s1 = (Inr (map Some (written ws), s2), h1)" by simp
  with w show ?thesis by (simp add: round_trip_def seq_def)
qed

theorem round_trip_from_empty_witness:
  "fst (round_trip [([1, 2], 2, 3), ([3], 1, 3)] [(1, 0), (2, 0)] fresh_heap fresh)
     = Inr [Some 1, Some 2, Some 3]"
proof -
  have "gpos fresh = ppos fresh" "\<not> const_buf fresh" by (simp_all add: fresh_simp)
  moreover have "valid_writes [([1, 2], 2, 3), ([3], 1, 3)]" by (simp add: NULL_def)
  moreover have "unat (ppos fresh) + length (written [([1, 2], 2, 3), ([3], 1, 3)]) < 2 ^ 64"
    by (simp add: fresh_simp)
  moreover have "sizes [(1, 0), (2, 0)] = length (written [([1, 2], 2, 3), ([3], 1, 3)])"
    by simp
  ultimately have
    "fst (round_trip [([1, 2], 2, 3), ([3], 1, 3)] [(1, 0), (2, 0)] fresh_heap fresh)
       = Inr (map Some (written [([1, 2], 2, 3), ([3], 1, 3)]))"
    using fresh_well_formed by (intro round_trip_from_empty)
  then show ?thesis by simp
qed

text \<open>
  C3 as stated, for every owned object, fails on one that holds unread bytes: the reads
  deliver those first. The owned object with the one unread byte 1 (\<open>one_byte_reached\<close>),
  a write of the byte 2 and a read of one byte: the read returns the byte 1.
\<close>

theorem round_trip_unread_counterexample:
  "well_formed one_byte_heap one_byte \<and> \<not> const_buf one_byte \<and>
   valid_writes [([2], 1, 3)] \<and> written [([2], 1, 3)] = [2] \<and> sizes [(1, 0)] = 1 \<and>
   fst (round_trip [([2], 1, 3)] [(1, 0)] one_byte_heap one_byte) = Inr [Some 1] \<and>
   fst (round_trip [([2], 1, 3)] [(1, 0)] one_byte_heap one_byte)
     \<noteq> Inr (map Some (written [([2], 1, 3)]))"
  using one_byte_well_formed
  by (simp add: round_trip_def seq_def write'_def read_simp caller_bytes_def store_bytes_def
      load_bytes_def one_byte_def one_byte_heap_def NULL_def)

subsection \<open>\<^verbatim>\<open>write_head\<close>\<close>

text \<open>
  C4: on an owned object, after writing the body bytes \<open>B\<close> and then calling
  \<^verbatim>\<open>write_head\<close> with the header bytes \<open>H\<close>, the logical content is \<open>H\<close> followed by \<open>B\<close>,
  whether the margin before \<open>read_pos\<close> suffices or \<^verbatim>\<open>write_head\<close> allocates anew.

  As amended: on a well-formed owned object that holds no unread bytes, when the two
  arrays hold the bytes the calls name, \<^verbatim>\<open>realloc\<close> and \<^verbatim>\<open>malloc\<close> answer with a block
  (\<^verbatim>\<open>malloc\<close> with one that is not the buffer), and \<open>write_pos + |B| + |H|\<close> does not exceed
  the largest \<^verbatim>\<open>size_t\<close>. Both branches of \<^verbatim>\<open>write_head\<close> are covered: \<open>write_head_fits\<close>
  is the one, \<open>write_head_moves\<close> the other.
\<close>

theorem header_precedes_body:
  assumes wf: "well_formed h s" and own: "\<not> const_buf s" and empty: "gpos s = ppos s"
    and body: "unat nb \<le> length body" and header: "unat nh \<le> length header"
    and fit: "unat (ppos s) + unat nb + unat nh < 2 ^ 64"
    and ra: "ra \<noteq> NULL" and ma: "ma \<noteq> NULL" "ma \<noteq> buf s" "ma \<noteq> ra"
  shows "content_after (body_then_head body nb ra header nh ma h s)
      = Inr (map Some (take (unat nh) header @ take (unat nb) body))"
proof -
  from fit have fit1: "unat (ppos s) + unat nb < 2 ^ 64" by linarith
  from write'_ok [OF wf own body fit1 ra] obtain s1 h1 where
    w: "write' body nb ra h s = (Inr s1, h1)" and wf1: "well_formed h1 s1"
    and own1: "\<not> const_buf s1" and p1: "ppos s1 = ppos s + nb"
    and b1: "buf s1 = buf s \<or> buf s1 = ra"
    and c1: "content h1 s1 = content h s @ map Some (take (unat nb) body)"
    by blast
  have "unat (ppos s1) = unat (ppos s) + unat nb"
    using fit1 unat_add_lem [of "ppos s" nb] by (simp add: p1)
  with fit have fit2: "unat (ppos s1) + unat nh < 2 ^ 64" by linarith
  from b1 ma have ma1: "ma \<noteq> buf s1" by auto
  from write_head_ok [OF wf1 own1 header fit2 ma(1) ma1] obtain s2 h2 where
    "write_head header nh ma h1 s1 = (Inr s2, h2)"
    "content h2 s2 = map Some (take (unat nh) header) @ content h1 s1"
    by blast
  with w c1 empty show ?thesis
    by (simp add: body_then_head_def seq_def content_after_def empty_content)
qed

theorem header_precedes_body_witness:
  "content_after (body_then_head [1, 2] 2 3 (replicate 100 5) 100 4 fresh_heap fresh)
     = Inr (map Some (replicate 100 5 @ [1, 2])) \<and>
   content_after (body_then_head [1, 2] 2 3 [8, 9] 2 4 fresh_heap fresh)
     = Inr (map Some ([8, 9] @ [1, 2]))"
proof -
  have e: "gpos fresh = ppos fresh" "\<not> const_buf fresh" by (simp_all add: fresh_simp)
  have n: "(3::nat) \<noteq> NULL" "(4::nat) \<noteq> NULL" "(4::nat) \<noteq> buf fresh" "(4::nat) \<noteq> 3"
    by (simp_all add: NULL_def fresh_simp)
  have "unat (ppos fresh) + unat (2 :: size_t) + unat (100 :: size_t) < 2 ^ 64"
    by (simp add: fresh_simp)
  from header_precedes_body [OF fresh_well_formed e(2) e(1) _ _ this n,
      of "[1, 2]" "replicate 100 5"]
  have a: "content_after (body_then_head [1, 2] 2 3 (replicate 100 5) 100 4 fresh_heap fresh)
     = Inr (map Some (replicate 100 5 @ [1, 2]))" by simp
  have "unat (ppos fresh) + unat (2 :: size_t) + unat (2 :: size_t) < 2 ^ 64"
    by (simp add: fresh_simp)
  from header_precedes_body [OF fresh_well_formed e(2) e(1) _ _ this n, of "[1, 2]" "[8, 9]"]
  have b: "content_after (body_then_head [1, 2] 2 3 [8, 9] 2 4 fresh_heap fresh)
     = Inr (map Some ([8, 9] @ [1, 2]))" by simp
  from a b show ?thesis by blast
qed

text \<open>
  C4 as stated, for every owned object, fails on one that holds unread bytes: they stay
  between the header and the body. The owned object with the one unread byte 1
  (\<open>one_byte_reached\<close>), the body 2 and the header 9: the logical content is 9, 1, 2.
\<close>

theorem header_body_unread_counterexample:
  "well_formed one_byte_heap one_byte \<and> \<not> const_buf one_byte \<and>
   content_after (body_then_head [2] 1 3 [9] 1 4 one_byte_heap one_byte)
     = Inr [Some 9, Some 1, Some 2] \<and>
   content_after (body_then_head [2] 1 3 [9] 1 4 one_byte_heap one_byte)
     \<noteq> Inr (map Some ([9] @ [2]))"
  using one_byte_well_formed
  by (simp add: body_then_head_def content_after_def seq_def write'_def write_head_def
      caller_bytes_def store_bytes_def content_def region_def one_byte_def one_byte_heap_def)

text \<open>
  C9: in \<^verbatim>\<open>write_head\<close> on an owned object with a header of \<open>n\<close> bytes, whenever the branch
  that allocates runs (\<open>read_pos < n\<close>), the read offset it computes,
  \<open>new_size - (write_pos - read_pos)\<close> with
  \<open>new_size = max (n + write_pos) (write_pos + 64)\<close>, is at least \<open>n\<close>, so that the
  decrement \<open>read_pos -= n\<close> does not wrap around and the header is copied to offsets
  within the new allocation.

  As amended: when \<open>n + write_pos\<close> does not exceed the largest \<^verbatim>\<open>size_t\<close>. The object
  is well-formed, the caller's array holds the \<open>n\<close> bytes, and \<^verbatim>\<open>malloc\<close> answers with a
  block that is not the buffer.
\<close>

theorem write_head_new_offset:
  assumes wf: "well_formed h s" and own: "\<not> const_buf s"
    and data: "unat sz \<le> length data"
    and small: "gpos s < sz"
    and fit: "unat (ppos s) + unat sz < 2 ^ 64"
    and ma: "ma \<noteq> NULL" "ma \<noteq> buf s"
  shows "let new_size = max (sz + ppos s) (ppos s + RESERVED_HEADER_SPACE);
             new_gpos = new_size - (ppos s - gpos s);
             s' = s\<lparr>buf := ma, gpos := new_gpos - sz, ppos := new_size, pend := new_size\<rparr>
         in RESERVED_HEADER_SPACE = 64 \<and> sz \<le> new_gpos \<and>
            unat (new_gpos - sz) = unat new_gpos - unat sz \<and>
            unat (new_gpos - sz) + unat sz \<le> unat new_size \<and>
            (\<exists>h'. write_head data sz ma h s = (Inr s', h') \<and>
                  length (region h' s') = unat new_size)"
proof -
  define N where "N = max (sz + ppos s) (ppos s + RESERVED_HEADER_SPACE)"
  define ng where "ng = N - (ppos s - gpos s)"
  define s' where "s' = s\<lparr>buf := ma, gpos := ng - sz, ppos := N, pend := N\<rparr>"
  from write_head_moves [OF wf own data small fit ma]
  have le: "sz \<le> ng" and inside: "unat (ng - sz) + unat sz \<le> unat N"
    and ex: "\<exists>h'. write_head data sz ma h s = (Inr s', h') \<and> well_formed h' s'"
    unfolding N_def ng_def s'_def by blast+
  from ex obtain h' where r: "write_head data sz ma h s = (Inr s', h')" and wf': "well_formed h' s'"
    by blast
  from wf' have "length (region h' s') = unat N" by (simp add: well_formed_def s'_def)
  with r have "\<exists>h'. write_head data sz ma h s = (Inr s', h') \<and> length (region h' s') = unat N"
    by blast
  moreover from le have "unat (ng - sz) = unat ng - unat sz" by (rule unat_sub)
  moreover have "RESERVED_HEADER_SPACE = 64" by (simp add: RESERVED_HEADER_SPACE_def)
  ultimately show ?thesis
    using le inside unfolding Let_def N_def ng_def s'_def by blast
qed

theorem write_head_new_offset_witness:
  "\<exists>h'. write_head (replicate 100 5) 100 3 fresh_heap fresh
      = (Inr \<lparr>buf = 3, const_buf = False, pend = 164, gpos = 64, ppos = 164\<rparr>, h') \<and>
     length (region h' \<lparr>buf = 3, const_buf = False, pend = 164, gpos = 64, ppos = 164\<rparr>) = 164"
proof -
  have "gpos fresh < 100" "unat (ppos fresh) + unat (100 :: size_t) < 2 ^ 64"
    by (simp_all add: fresh_simp)
  from write_head_new_offset [OF fresh_well_formed _ _ this, of "replicate 100 5" 3]
  show ?thesis by (simp add: fresh_simp NULL_def RESERVED_HEADER_SPACE_def Let_def)
qed

text \<open>
  C9 as stated fails where \<open>n + write_pos\<close> wraps around. On the freshly
  constructed owned object and a header of \<open>2\<^sup>6\<^sup>4 - 10\<close> bytes the branch runs, the sum
  is 54 in \<^verbatim>\<open>size_t\<close>, \<open>new_size\<close> is 128 and so is the read offset computed, which is
  less than \<open>n\<close>; the decrement wraps around to 138, and the copy of the header leaves
  the new block of 128.
\<close>

theorem write_head_overflow_counterexample:
  "well_formed fresh_heap fresh \<and> \<not> const_buf fresh \<and>
   gpos fresh < 0xFFFFFFFFFFFFFFF6 \<and>
   max (0xFFFFFFFFFFFFFFF6 + ppos fresh) (ppos fresh + RESERVED_HEADER_SPACE)
     - (ppos fresh - gpos fresh) = 128 \<and>
   \<not> (0xFFFFFFFFFFFFFFF6 :: size_t) \<le> 128 \<and>
   (128 :: size_t) - 0xFFFFFFFFFFFFFFF6 = 138 \<and>
   fst (write_head (replicate 18446744073709551606 0) 0xFFFFFFFFFFFFFFF6 3 fresh_heap fresh)
     = Inl UndefinedBehaviour"
  using fresh_well_formed
  by (simp add: fresh_simp fresh_heap_simp RESERVED_HEADER_SPACE_def write_head_def seq_def
      malloc_def NULL_def load_bytes_def store_bytes_def caller_bytes_def free_def Let_def)

end
